theory Spec2Isabelle
  imports Main
begin

section \<open>Data model of \<open>src/tidal/tidalsearch.cpp\<close>\<close>

text \<open>
  A \<open>QString\<close> is a list of characters. The model covers code units below 256; for
  these \<open>QChar::isSpace\<close> (the class \<open>\s\<close> of \<open>QRegExp\<close>) holds of U+0009 to
  U+000D, U+0020, U+0085 and U+00A0.

  The counters and ids are C++ \<open>int\<close>; they are unbounded integers here. Signed overflow
  of \<open>searches_next_id_++\<close> is undefined behaviour in C++, so the model describes the
  object for fewer than \<open>2^31\<close> searches.

  The members of the class end in an underscore in the source (\<open>orig_id_\<close>,
  \<open>pending_searches_\<close>); the underscore is dropped here, the fields of
  \<open>DelayedSearch\<close> carry the prefix \<open>d_\<close>, and a parameter \<open>id\<close> is \<open>ident\<close>.
\<close>

type_synonym QString = string

text \<open>\<open>TidalSettingsPage::SearchBy\<close> is an enum declared outside this file: its integer value.\<close>

type_synonym SearchBy = int

text \<open>
  \<open>Song\<close> is declared outside this file. The only member this file reads is \<open>url()\<close>,
  and only through \<open>QUrl::toString()\<close> or as an opaque value: the field holds that string.
\<close>

record Song =
  url :: QString

text \<open>
  \<open>QImage\<close>, as far as this file looks at it: the null image (of width and height 0),
  an image of a width and a height with some content, and the image that \<open>ScaleAndPad\<close>
  paints: a canvas of a width and a height filled with 0 (transparent) on which an image
  is drawn at \<open>(x, y)\<close>.
\<close>

datatype QImage =
    QImage_null
  | QImage_data int int nat
  | QImage_painted int int int int QImage

datatype QPixmap = QPixmap_fromImage QImage

record Result =
  metadata :: Song
  pixmap_cache_key :: QString

record PendingState =
  orig_id :: int
  tokens :: "QString list"

record DelayedSearch =
  d_id :: int
  d_query :: QString
  d_searchby :: SearchBy

text \<open>What \<open>LoadTracks\<close> builds: an \<open>InternetSongMimeData\<close> with its songs and its URLs.\<close>

record MimeData =
  songs :: "Song list"
  urls :: "QString list"

subsection \<open>QMap\<close>

text \<open>
  A \<open>QMap<K, V>\<close> is a list of pairs in ascending key order, one pair per key.
  \<open>QMap_insert\<close> is the assignment \<open>m[k] = v\<close>; \<open>QMap_value\<close> is the lookup, None
  for an absent key; \<open>QMap_erase\<close> removes the key.
\<close>

fun QMap_insert :: "'k::linorder \<Rightarrow> 'v \<Rightarrow> ('k \<times> 'v) list \<Rightarrow> ('k \<times> 'v) list" where
  "QMap_insert k v [] = [(k, v)]"
| "QMap_insert k v ((k', v') # m) =
     (if k < k' then (k, v) # (k', v') # m
      else if k = k' then (k, v) # m
      else (k', v') # QMap_insert k v m)"

fun QMap_value :: "('k \<times> 'v) list \<Rightarrow> 'k \<Rightarrow> 'v option" where
  "QMap_value [] k = None"
| "QMap_value ((k', v') # m) k = (if k = k' then Some v' else QMap_value m k)"

fun QMap_erase :: "'k \<Rightarrow> ('k \<times> 'v) list \<Rightarrow> ('k \<times> 'v) list" where
  "QMap_erase k [] = []"
| "QMap_erase k ((k', v') # m) = (if k = k' then m else (k', v') # QMap_erase k m)"

definition QMap_contains :: "('k \<times> 'v) list \<Rightarrow> 'k \<Rightarrow> bool" where
  "QMap_contains m k = (QMap_value m k \<noteq> None)"

text \<open>\<open>m.keys(v)\<close>: the keys whose value compares equal to \<open>v\<close> under \<open>operator==\<close>.\<close>

definition QMap_keys_of :: "('v \<Rightarrow> 'v \<Rightarrow> bool) \<Rightarrow> ('k \<times> 'v) list \<Rightarrow> 'v \<Rightarrow> 'k list" where
  "QMap_keys_of eq m v = map fst (filter (\<lambda>p. eq (snd p) v) m)"

section \<open>The tokenizer\<close>

definition QChar_isSpace :: "char \<Rightarrow> bool" where
  "QChar_isSpace c = ((of_char c :: nat) \<in> {9, 10, 11, 12, 13, 32, 133, 160})"

text \<open>
  \<open>query.split(QRegExp("\\s+"))\<close> with the default \<open>KeepEmptyParts\<close>: the loop of
  \<open>QString::split\<close> looks for the next match of \<open>\s+\<close> (a maximal run of
  whitespace), appends the piece before it and goes on behind it; the rest of the string
  is the last piece.
\<close>

function QString_split :: "QString \<Rightarrow> QString list" where
  "QString_split s =
     (case dropWhile (\<lambda>c. \<not> QChar_isSpace c) s of
        [] \<Rightarrow> [s]
      | r # rs \<Rightarrow> takeWhile (\<lambda>c. \<not> QChar_isSpace c) s # QString_split (dropWhile QChar_isSpace rs))"
  by pat_completeness auto
termination
proof (relation "measure length")
  show "wf (measure length)" by simp
next
  fix s :: QString and r rs
  assume a: "dropWhile (\<lambda>c. \<not> QChar_isSpace c) s = r # rs"
  have "length (dropWhile QChar_isSpace rs) \<le> length rs"
    by (rule length_dropWhile_le)
  moreover have "length (r # rs) \<le> length s"
    using length_dropWhile_le [of "\<lambda>c. \<not> QChar_isSpace c" s] a by simp
  ultimately show "(dropWhile QChar_isSpace rs, s) \<in> measure length"
    by simp
qed

declare QString_split.simps [simp del]

text \<open>\<open>s.remove(ch)\<close> removes every occurrence of the character.\<close>

definition QString_remove_char :: "char \<Rightarrow> QString \<Rightarrow> QString" where
  "QString_remove_char ch s = filter (\<lambda>c. c \<noteq> ch) s"

text \<open>\<open>s.indexOf(ch)\<close>: the position of the first occurrence, \<open>-1\<close> when there is none.\<close>

fun QString_indexOf :: "char \<Rightarrow> QString \<Rightarrow> int" where
  "QString_indexOf ch [] = -1"
| "QString_indexOf ch (c # s) =
     (if c = ch then 0
      else (let i = QString_indexOf ch s in if i = -1 then -1 else i + 1))"

text \<open>\<open>s.remove(0, n)\<close> removes the first \<open>n\<close> characters.\<close>

definition QString_remove_front :: "int \<Rightarrow> QString \<Rightarrow> QString" where
  "QString_remove_front n s = drop (nat n) s"

text \<open>The body of the loop of \<open>TokenizeQuery\<close>, applied to one token.\<close>

definition TokenizeQuery_token :: "QString \<Rightarrow> QString" where
  "TokenizeQuery_token t =
     (let t1 = QString_remove_char (CHR ''('') t;
          t2 = QString_remove_char (CHR '')'') t1;
          t3 = QString_remove_char (CHR 0x22) t2;
          colon = QString_indexOf (CHR '':'') t3
      in if colon \<noteq> -1 then QString_remove_front (colon + 1) t3 else t3)"

fun TokenizeQuery_loop :: "QString list \<Rightarrow> QString list" where
  "TokenizeQuery_loop [] = []"
| "TokenizeQuery_loop (t # ts) = TokenizeQuery_token t # TokenizeQuery_loop ts"

definition TokenizeQuery :: "QString \<Rightarrow> QString list" where
  "TokenizeQuery query = TokenizeQuery_loop (QString_split query)"

section \<open>The state of a \<open>TidalSearch\<close> object and what it does to the outside\<close>

text \<open>
  Modelled from the spec: the class of \<open>pixmap_cache_\<close>, with its \<open>insert\<close> and
  \<open>find\<close>, is declared in \<open>tidalsearch.h\<close>, which is not among the sources. The
  spec's thumbnail cache (section 4.5) is a keyed store: \<open>Insert(key, image)\<close> stores or
  overwrites the entry, \<open>Lookup(key)\<close> reads it and reports whether it is there.
\<close>

type_synonym PixmapCache = "QString \<Rightarrow> QPixmap option"

definition PixmapCache_insert :: "PixmapCache \<Rightarrow> QString \<Rightarrow> QPixmap \<Rightarrow> PixmapCache" where
  "PixmapCache_insert c key pixmap = c(key \<mapsto> pixmap)"

definition PixmapCache_find :: "PixmapCache \<Rightarrow> QString \<Rightarrow> QPixmap option" where
  "PixmapCache_find c key = c key"

record TidalSearch =
  searches_next_id :: int
  art_searches_next_id :: int
  delayed_searches :: "(int \<times> DelayedSearch) list"
  pending_searches :: "(int \<times> PendingState) list"
  pending_art_searches :: "(int \<times> QString) list"
  cover_loader_tasks :: "(nat \<times> int) list"
  pixmap_cache :: PixmapCache

text \<open>The object as the constructor leaves it.\<close>

definition TidalSearch_init :: TidalSearch where
  "TidalSearch_init =
     \<lparr>searches_next_id = 1, art_searches_next_id = 1, delayed_searches = [],
      pending_searches = [], pending_art_searches = [], cover_loader_tasks = [],
      pixmap_cache = Map.empty\<rparr>"

text \<open>
  What a member function does to the outside, in the order it does it: the signals it
  emits to the caller, and its calls of the backend service, of the cover loader and of
  the timers of \<open>QObject\<close>. The value such a call returns (the service's id, the
  loader's id, the timer's id) is chosen by the other side, so it is an argument of the
  function of the model that makes the call.

  The constructor connects \<open>SearchAsyncSig\<close> to \<open>DoSearchAsync\<close> and
  \<open>ResultsAvailable\<close> to \<open>ResultsAvailableSlot\<close> within the one object; in the
  single-threaded use the spec describes, Qt runs such a slot inside the \<open>emit\<close>.
\<close>

datatype effect =
    ResultsAvailable int "Result list"
  | AddResults int "Result list"
  | SearchFinished int
  | SearchError int QString
  | ArtLoaded int QPixmap
  | service_Search QString SearchBy
  | LoadImageAsync Song
  | startTimer int
  | killTimer int

definition kDelayedSearchTimeoutMs :: int where
  "kDelayedSearchTimeoutMs = 200"

definition kMaxResultsPerEmission :: int where
  "kMaxResultsPerEmission = 1000"


section \<open>Searching\<close>

text \<open>\<open>SearchAsync(int id, query, searchby)\<close>; \<open>service_id\<close> is what \<open>service_->Search\<close> returns.\<close>

definition SearchAsync_id ::
  "int \<Rightarrow> TidalSearch \<Rightarrow> int \<Rightarrow> QString \<Rightarrow> SearchBy \<Rightarrow> effect list \<times> TidalSearch" where
  "SearchAsync_id service_id s ident query searchby =
     ([service_Search query searchby],
      s\<lparr>pending_searches :=
          QMap_insert service_id \<lparr>orig_id = ident, tokens = TokenizeQuery query\<rparr>
            (pending_searches s)\<rparr>)"

text \<open>
  \<open>DoSearchAsync\<close>; \<open>timer_id\<close> is what \<open>startTimer\<close> returns. The three assignments
  through \<open>delayed_searches_[timer_id]\<close> set every field of the entry.
\<close>

definition DoSearchAsync ::
  "int \<Rightarrow> TidalSearch \<Rightarrow> int \<Rightarrow> QString \<Rightarrow> SearchBy \<Rightarrow> effect list \<times> TidalSearch" where
  "DoSearchAsync timer_id s ident query searchby =
     ([startTimer kDelayedSearchTimeoutMs],
      s\<lparr>delayed_searches :=
          QMap_insert timer_id \<lparr>d_id = ident, d_query = query, d_searchby = searchby\<rparr>
            (delayed_searches s)\<rparr>)"

text \<open>\<open>SearchAsync(query, searchby)\<close> returns the new id; its \<open>emit\<close> runs \<open>DoSearchAsync\<close>.\<close>

definition SearchAsync ::
  "int \<Rightarrow> TidalSearch \<Rightarrow> QString \<Rightarrow> SearchBy \<Rightarrow> int \<times> effect list \<times> TidalSearch" where
  "SearchAsync timer_id s query searchby =
     (let ident = searches_next_id s;
          s1 = s\<lparr>searches_next_id := searches_next_id s + 1\<rparr>
      in (ident, DoSearchAsync timer_id s1 ident query searchby))"

definition PixmapCacheKey :: "Result \<Rightarrow> QString" where
  "PixmapCacheKey result = ''tidal:'' @ url (metadata result)"

fun ResultsAvailableSlot_loop :: "Result list \<Rightarrow> Result list" where
  "ResultsAvailableSlot_loop [] = []"
| "ResultsAvailableSlot_loop (r # rs) =
     r\<lparr>pixmap_cache_key := PixmapCacheKey r\<rparr> # ResultsAvailableSlot_loop rs"

text \<open>
  \<open>results.erase(begin + kMaxResultsPerEmission, results.end())\<close> keeps the first
  \<open>kMaxResultsPerEmission\<close> results.
\<close>

definition ResultsAvailableSlot :: "int \<Rightarrow> Result list \<Rightarrow> effect list" where
  "ResultsAvailableSlot ident results =
     (if results = [] then []
      else
        (let results1 =
               (if int (length results) > kMaxResultsPerEmission
                then take (nat kMaxResultsPerEmission) results
                else results)
         in [AddResults ident (ResultsAvailableSlot_loop results1)]))"

text \<open>
  Modelled from the spec: \<open>PendingState::operator==\<close> is declared in \<open>tidalsearch.h\<close>,
  which is not among the sources. The spec has the dispatcher check "whether origin has
  any remaining \<open>PendingSearchState\<close> entries": two states are equal when their origins
  are.
\<close>

definition PendingState_eq :: "PendingState \<Rightarrow> PendingState \<Rightarrow> bool" where
  "PendingState_eq a b = (orig_id a = orig_id b)"

definition MaybeSearchFinished :: "TidalSearch \<Rightarrow> int \<Rightarrow> effect list" where
  "MaybeSearchFinished s ident =
     (if QMap_keys_of PendingState_eq (pending_searches s) \<lparr>orig_id = ident, tokens = []\<rparr> = []
      then [SearchFinished ident] else [])"

fun SearchDone_loop :: "Song list \<Rightarrow> Result list" where
  "SearchDone_loop [] = []"
| "SearchDone_loop (song # sl) = \<lparr>metadata = song, pixmap_cache_key = []\<rparr> # SearchDone_loop sl"

text \<open>
  \<open>SearchDone\<close>. \<open>pending_searches_.take(service_id)\<close> removes the entry and returns
  its value; for an absent key it returns a default-constructed \<open>PendingState\<close>, whose
  constructor is declared outside this file: the argument \<open>dflt\<close>.
\<close>

definition SearchDone ::
  "PendingState \<Rightarrow> TidalSearch \<Rightarrow> int \<Rightarrow> Song list \<Rightarrow> effect list \<times> TidalSearch" where
  "SearchDone dflt s service_id sl =
     (let state = (case QMap_value (pending_searches s) service_id of
                     None \<Rightarrow> dflt | Some st \<Rightarrow> st);
          s1 = s\<lparr>pending_searches := QMap_erase service_id (pending_searches s)\<rparr>;
          search_id = orig_id state;
          ret = SearchDone_loop sl
      in (ResultsAvailable search_id ret # ResultsAvailableSlot search_id ret
            @ MaybeSearchFinished s1 search_id,
          s1))"

definition HandleError :: "TidalSearch \<Rightarrow> int \<Rightarrow> QString \<Rightarrow> effect list \<times> TidalSearch" where
  "HandleError s ident error = ([SearchError ident error], s)"

text \<open>The loop of \<open>CancelSearch\<close> over the entries in key order, up to its \<open>return\<close>.\<close>

fun CancelSearch_loop ::
  "(int \<times> DelayedSearch) list \<Rightarrow> int \<Rightarrow> effect list \<times> (int \<times> DelayedSearch) list" where
  "CancelSearch_loop [] ident = ([], [])"
| "CancelSearch_loop ((k, v) # m) ident =
     (if d_id v = ident then ([killTimer k], m)
      else (let (eff, m1) = CancelSearch_loop m ident in (eff, (k, v) # m1)))"

definition CancelSearch :: "TidalSearch \<Rightarrow> int \<Rightarrow> effect list \<times> TidalSearch" where
  "CancelSearch s ident =
     (let (eff, m) = CancelSearch_loop (delayed_searches s) ident
      in (eff, s\<lparr>delayed_searches := m\<rparr>))"

text \<open>
  \<open>timerEvent\<close> for the timer \<open>timer_id\<close>; \<open>service_id\<close> is what \<open>service_->Search\<close>
  returns if the call is made. \<open>QObject::timerEvent\<close> does nothing.
\<close>

definition timerEvent :: "int \<Rightarrow> TidalSearch \<Rightarrow> int \<Rightarrow> effect list \<times> TidalSearch" where
  "timerEvent service_id s timer_id =
     (case QMap_value (delayed_searches s) timer_id of
        Some d \<Rightarrow>
          (let (eff, s1) = SearchAsync_id service_id s (d_id d) (d_query d) (d_searchby d)
           in (eff, s1\<lparr>delayed_searches := QMap_erase timer_id (delayed_searches s1)\<rparr>))
      | None \<Rightarrow> ([], s))"

section \<open>Album art\<close>

text \<open>
  \<open>FindCachedPixmap\<close> returns whether the key is in the cache and, through its pointer
  argument, the pixmap: \<open>Some pixmap\<close> when it is found, \<open>None\<close> when it is not.
\<close>

definition FindCachedPixmap :: "TidalSearch \<Rightarrow> Result \<Rightarrow> QPixmap option" where
  "FindCachedPixmap s result = PixmapCache_find (pixmap_cache s) (pixmap_cache_key result)"

text \<open>\<open>LoadArtAsync\<close>; \<open>loader_id\<close> is what \<open>LoadImageAsync\<close> of the cover loader returns.\<close>

definition LoadArtAsync ::
  "nat \<Rightarrow> TidalSearch \<Rightarrow> Result \<Rightarrow> int \<times> effect list \<times> TidalSearch" where
  "LoadArtAsync loader_id s result =
     (let ident = art_searches_next_id s;
          s1 = s\<lparr>art_searches_next_id := art_searches_next_id s + 1\<rparr>;
          s2 = s1\<lparr>pending_art_searches :=
                    QMap_insert ident (pixmap_cache_key result) (pending_art_searches s1)\<rparr>;
          s3 = s2\<lparr>cover_loader_tasks := QMap_insert loader_id ident (cover_loader_tasks s2)\<rparr>
      in (ident, [LoadImageAsync (metadata result)], s3))"

text \<open>
  \<open>HandleLoadedArt\<close>. \<open>pending_art_searches_.take(id)\<close> returns the empty string for
  an absent key.
\<close>

definition HandleLoadedArt :: "TidalSearch \<Rightarrow> int \<Rightarrow> QImage \<Rightarrow> effect list \<times> TidalSearch" where
  "HandleLoadedArt s ident img =
     (let key = (case QMap_value (pending_art_searches s) ident of None \<Rightarrow> [] | Some k \<Rightarrow> k);
          s1 = s\<lparr>pending_art_searches := QMap_erase ident (pending_art_searches s)\<rparr>;
          pixmap = QPixmap_fromImage img;
          s2 = s1\<lparr>pixmap_cache := PixmapCache_insert (pixmap_cache s1) key pixmap\<rparr>
      in ([ArtLoaded ident pixmap], s2))"

definition ArtLoadedSlot :: "TidalSearch \<Rightarrow> int \<Rightarrow> QImage \<Rightarrow> effect list \<times> TidalSearch" where
  "ArtLoadedSlot s ident img = HandleLoadedArt s ident img"

definition AlbumArtLoaded :: "TidalSearch \<Rightarrow> nat \<Rightarrow> QImage \<Rightarrow> effect list \<times> TidalSearch" where
  "AlbumArtLoaded s ident img =
     (if \<not> QMap_contains (cover_loader_tasks s) ident then ([], s)
      else
        (case QMap_value (cover_loader_tasks s) ident of
           None \<Rightarrow> ([], s)
         | Some orig \<Rightarrow>
             HandleLoadedArt
               (s\<lparr>cover_loader_tasks := QMap_erase ident (cover_loader_tasks s)\<rparr>) orig img))"

subsection \<open>ScaleAndPad\<close>





datatype AspectRatioMode = IgnoreAspectRatio | KeepAspectRatio | KeepAspectRatioByExpanding

datatype TransformationMode = FastTransformation | SmoothTransformation



section \<open>LoadTracks\<close>

fun LoadTracks_songs :: "Song list \<Rightarrow> Result list \<Rightarrow> Song list" where
  "LoadTracks_songs acc [] = acc"
| "LoadTracks_songs acc (r # rs) = LoadTracks_songs (acc @ [metadata r]) rs"

fun LoadTracks_urls :: "QString list \<Rightarrow> Result list \<Rightarrow> QString list" where
  "LoadTracks_urls acc [] = acc"
| "LoadTracks_urls acc (r # rs) = LoadTracks_urls (acc @ [url (metadata r)]) rs"

text \<open>
  \<open>LoadTracks\<close> returns a pointer: \<open>None\<close> is \<open>nullptr\<close>. Its first loop fills
  \<open>results_copy\<close>, which is never read.
\<close>

definition LoadTracks :: "Result list \<Rightarrow> MimeData option" where
  "LoadTracks results =
     (if results = [] then None
      else Some \<lparr>songs = LoadTracks_songs [] results, urls = LoadTracks_urls [] results\<rparr>)"

section \<open>Runs of the object\<close>

text \<open>
  What reaches the object from outside: the caller's \<open>SearchAsync(query, searchby)\<close>,
  \<open>CancelSearch\<close> and \<open>LoadArtAsync\<close>, the timer events of the event loop, and the
  replies of the backend service and of the cover loader. An event carries the value
  that the other side returns when the object calls it.
\<close>

datatype event =
    E_SearchAsync QString SearchBy int
  | E_CancelSearch int
  | E_timerEvent int int
  | E_SearchDone int "Song list"
  | E_HandleError int QString
  | E_LoadArtAsync Result nat
  | E_AlbumArtLoaded nat QImage

fun step :: "PendingState \<Rightarrow> TidalSearch \<Rightarrow> event \<Rightarrow> effect list \<times> TidalSearch" where
  "step dflt s (E_SearchAsync query searchby timer_id) = snd (SearchAsync timer_id s query searchby)"
| "step dflt s (E_CancelSearch ident) = CancelSearch s ident"
| "step dflt s (E_timerEvent timer_id service_id) = timerEvent service_id s timer_id"
| "step dflt s (E_SearchDone service_id sl) = SearchDone dflt s service_id sl"
| "step dflt s (E_HandleError ident error) = HandleError s ident error"
| "step dflt s (E_LoadArtAsync result loader_id) = snd (LoadArtAsync loader_id s result)"
| "step dflt s (E_AlbumArtLoaded loader_id img) = AlbumArtLoaded s loader_id img"

fun run :: "PendingState \<Rightarrow> TidalSearch \<Rightarrow> event list \<Rightarrow> effect list \<times> TidalSearch" where
  "run dflt s [] = ([], s)"
| "run dflt s (e # es) =
     (let (eff, s1) = step dflt s e; (effs, s2) = run dflt s1 es in (eff @ effs, s2))"

text \<open>
  The origins that have an entry in \<open>delayed_searches_\<close> (a timer that has not fired),
  and the origins that have an entry in \<open>pending_searches_\<close> (a call of the backend
  that has not been answered by \<open>SearchDone\<close>).
\<close>

definition delayed_origins :: "TidalSearch \<Rightarrow> int list" where
  "delayed_origins s = map (\<lambda>p. d_id (snd p)) (delayed_searches s)"

definition pending_origins :: "TidalSearch \<Rightarrow> int list" where
  "pending_origins s = map (\<lambda>p. orig_id (snd p)) (pending_searches s)"

text \<open>
  What holds of the two tables along every run: no origin has two timers, every origin
  in a table was handed out by \<open>SearchAsync\<close>, and an origin whose timer has not fired
  has no call of the backend.
\<close>

definition search_inv :: "TidalSearch \<Rightarrow> bool" where
  "search_inv s =
     (distinct (delayed_origins s) \<and>
      list_all (\<lambda>i. i < searches_next_id s) (delayed_origins s) \<and>
      list_all (\<lambda>i. i < searches_next_id s) (pending_origins s) \<and>
      list_all (\<lambda>i. i \<notin> set (pending_origins s)) (delayed_origins s))"

section \<open>The result processor\<close>

lemma ResultsAvailableSlot_loop_map:
  "ResultsAvailableSlot_loop rs = map (\<lambda>r. r\<lparr>pixmap_cache_key := PixmapCacheKey r\<rparr>) rs"
  by (induction rs) simp_all

text \<open>
  Claim C5. \<open>ResultsAvailableSlot\<close> emits nothing for an empty batch. For a batch that
  is not empty it emits one \<open>AddResults\<close> with the first 1000 results of the batch in
  their order, each with its cache key filled in: exactly 1000 results when the batch has
  more than 1000, and the whole batch when it has at most 1000.
\<close>

theorem C5_results_bounded:
  "ResultsAvailableSlot ident [] = [] \<and>
   (results \<noteq> [] \<longrightarrow>
      (\<exists>out. ResultsAvailableSlot ident results = [AddResults ident out] \<and>
             out = map (\<lambda>r. r\<lparr>pixmap_cache_key := PixmapCacheKey r\<rparr>) (take 1000 results) \<and>
             map metadata out = take 1000 (map metadata results) \<and>
             (length results > 1000 \<longrightarrow> length out = 1000) \<and>
             (length results \<le> 1000 \<longrightarrow>
                length out = length results \<and> map metadata out = map metadata results)))"
proof -
  have e: "ResultsAvailableSlot ident [] = []"
    by (simp add: ResultsAvailableSlot_def)
  have n: "ResultsAvailableSlot ident results =
             [AddResults ident (map (\<lambda>r. r\<lparr>pixmap_cache_key := PixmapCacheKey r\<rparr>) (take 1000 results))]"
    if "results \<noteq> []"
    using that
    by (simp add: ResultsAvailableSlot_def kMaxResultsPerEmission_def Let_def
        ResultsAvailableSlot_loop_map)
  show ?thesis
    using e n by (auto simp: take_map o_def)
qed

theorem C5_results_bounded_witness:
  "replicate 1001 \<lparr>metadata = \<lparr>url = ''u''\<rparr>, pixmap_cache_key = []\<rparr> \<noteq> [] \<and>
   length (replicate 1001 \<lparr>metadata = \<lparr>url = ''u''\<rparr>, pixmap_cache_key = []\<rparr>) > 1000 \<and>
   ResultsAvailableSlot 3 (replicate 1001 \<lparr>metadata = \<lparr>url = ''u''\<rparr>, pixmap_cache_key = []\<rparr>) =
     [AddResults 3 (replicate 1000 \<lparr>metadata = \<lparr>url = ''u''\<rparr>, pixmap_cache_key = ''tidal:u''\<rparr>)]"
  using C5_results_bounded [of 3 "replicate 1001 \<lparr>metadata = \<lparr>url = ''u''\<rparr>, pixmap_cache_key = []\<rparr>"]
  by (simp add: PixmapCacheKey_def)

section \<open>Loading tracks\<close>

lemma LoadTracks_songs_map: "LoadTracks_songs acc rs = acc @ map metadata rs"
  by (induction rs arbitrary: acc) simp_all

lemma LoadTracks_urls_map: "LoadTracks_urls acc rs = acc @ map (\<lambda>r. url (metadata r)) rs"
  by (induction rs arbitrary: acc) simp_all

text \<open>
  Claim C10. \<open>LoadTracks\<close> returns the null pointer exactly for the empty result list.
  For any other list the mime data holds the metadata of the results, and its URLs are
  the URLs of the results' metadata, both in the order of the input.
\<close>

theorem C10_LoadTracks:
  "(LoadTracks results = None \<longleftrightarrow> results = []) \<and>
   (results \<noteq> [] \<longrightarrow>
      (\<exists>m. LoadTracks results = Some m \<and> songs m = map metadata results \<and>
           urls m = map (\<lambda>r. url (metadata r)) results))"
  by (simp add: LoadTracks_def LoadTracks_songs_map LoadTracks_urls_map)

theorem C10_LoadTracks_witness:
  "[\<lparr>metadata = \<lparr>url = ''a''\<rparr>, pixmap_cache_key = ''k''\<rparr>,
    \<lparr>metadata = \<lparr>url = ''b''\<rparr>, pixmap_cache_key = []\<rparr>] \<noteq> [] \<and>
   LoadTracks [\<lparr>metadata = \<lparr>url = ''a''\<rparr>, pixmap_cache_key = ''k''\<rparr>,
               \<lparr>metadata = \<lparr>url = ''b''\<rparr>, pixmap_cache_key = []\<rparr>] =
     Some \<lparr>songs = [\<lparr>url = ''a''\<rparr>, \<lparr>url = ''b''\<rparr>], urls = [''a'', ''b'']\<rparr>"
  using C10_LoadTracks [of "[\<lparr>metadata = \<lparr>url = ''a''\<rparr>, pixmap_cache_key = ''k''\<rparr>,
               \<lparr>metadata = \<lparr>url = ''b''\<rparr>, pixmap_cache_key = []\<rparr>]"]
  by auto

section \<open>Properties of the tokenizer\<close>

lemma QString_split_last:
  assumes "dropWhile (\<lambda>c. \<not> QChar_isSpace c) s = []"
  shows "QString_split s = [s]"
  by (subst QString_split.simps) (simp only: assms list.case)

lemma QString_split_piece:
  assumes "dropWhile (\<lambda>c. \<not> QChar_isSpace c) s = r # rs"
  shows "QString_split s =
           takeWhile (\<lambda>c. \<not> QChar_isSpace c) s # QString_split (dropWhile QChar_isSpace rs)"
  by (subst QString_split.simps) (simp only: assms list.case)

lemma QString_split_no_space:
  "p \<in> set (QString_split s) \<Longrightarrow> c \<in> set p \<Longrightarrow> \<not> QChar_isSpace c"
proof (induction s arbitrary: p rule: QString_split.induct)
  case (1 s)
  show ?case
  proof (cases "dropWhile (\<lambda>c. \<not> QChar_isSpace c) s")
    case Nil
    then have "\<forall>x\<in>set s. \<not> QChar_isSpace x"
      by (simp add: dropWhile_eq_Nil_conv)
    moreover from "1.prems" have "p = s"
      by (simp add: QString_split_last [OF Nil])
    ultimately show ?thesis using "1.prems" by blast
  next
    case (Cons r rs)
    with "1.prems" have "p = takeWhile (\<lambda>c. \<not> QChar_isSpace c) s \<or>
        p \<in> set (QString_split (dropWhile QChar_isSpace rs))"
      by (simp add: QString_split_piece [OF Cons])
    then show ?thesis
    proof
      assume "p = takeWhile (\<lambda>c. \<not> QChar_isSpace c) s"
      with "1.prems" show ?thesis by (auto dest: set_takeWhileD)
    next
      assume "p \<in> set (QString_split (dropWhile QChar_isSpace rs))"
      with "1.IH" [OF Cons] "1.prems" show ?thesis by blast
    qed
  qed
qed

lemma QString_split_concat:
  "concat (QString_split s) = filter (\<lambda>c. \<not> QChar_isSpace c) s"
proof (induction s rule: QString_split.induct)
  case (1 s)
  show ?case
  proof (cases "dropWhile (\<lambda>c. \<not> QChar_isSpace c) s")
    case Nil
    then have "\<forall>x\<in>set s. \<not> QChar_isSpace x"
      by (simp add: dropWhile_eq_Nil_conv)
    then have "filter (\<lambda>c. \<not> QChar_isSpace c) s = s" by simp
    then show ?thesis by (simp add: QString_split_last [OF Nil])
  next
    case (Cons r rs)
    have r: "QChar_isSpace r"
      using hd_dropWhile [of "\<lambda>c. \<not> QChar_isSpace c" s] Cons by simp
    have s: "s = takeWhile (\<lambda>c. \<not> QChar_isSpace c) s @ r # rs"
      using takeWhile_dropWhile_id [of "\<lambda>c. \<not> QChar_isSpace c" s] Cons by simp
    have rs: "rs = takeWhile QChar_isSpace rs @ dropWhile QChar_isSpace rs"
      by simp
    have f1: "filter (\<lambda>c. \<not> QChar_isSpace c) (takeWhile (\<lambda>c. \<not> QChar_isSpace c) s) =
              takeWhile (\<lambda>c. \<not> QChar_isSpace c) s"
      by (rule filter_True) (auto dest: set_takeWhileD)
    have f2: "filter (\<lambda>c. \<not> QChar_isSpace c) (takeWhile QChar_isSpace rs) = []"
      by (rule filter_False) (auto dest: set_takeWhileD)
    have "filter (\<lambda>c. \<not> QChar_isSpace c) s =
            filter (\<lambda>c. \<not> QChar_isSpace c) (takeWhile (\<lambda>c. \<not> QChar_isSpace c) s) @
            filter (\<lambda>c. \<not> QChar_isSpace c) (r # rs)"
      by (subst s) (simp only: filter_append)
    also have "filter (\<lambda>c. \<not> QChar_isSpace c) (r # rs) = filter (\<lambda>c. \<not> QChar_isSpace c) rs"
      using r by simp
    also have "filter (\<lambda>c. \<not> QChar_isSpace c) rs =
      filter (\<lambda>c. \<not> QChar_isSpace c) (takeWhile QChar_isSpace rs) @
      filter (\<lambda>c. \<not> QChar_isSpace c) (dropWhile QChar_isSpace rs)"
      by (subst rs) (simp only: filter_append)
    finally have "filter (\<lambda>c. \<not> QChar_isSpace c) s =
        takeWhile (\<lambda>c. \<not> QChar_isSpace c) s @
        filter (\<lambda>c. \<not> QChar_isSpace c) (dropWhile QChar_isSpace rs)"
      by (simp add: f1 f2)
    with "1.IH" [OF Cons] show ?thesis
      by (simp add: QString_split_piece [OF Cons])
  qed
qed

lemma QString_split_no_separator:
  assumes "\<forall>c\<in>set q. \<not> QChar_isSpace c"
  shows "QString_split q = [q]"
proof -
  have "dropWhile (\<lambda>c. \<not> QChar_isSpace c) q = []"
    using assms by (simp add: dropWhile_eq_Nil_conv)
  then show ?thesis by (rule QString_split_last)
qed

lemma QString_split_at_run:
  assumes p: "\<forall>c\<in>set p. \<not> QChar_isSpace c"
    and w: "w \<noteq> []" "\<forall>c\<in>set w. QChar_isSpace c"
    and r: "rest = [] \<or> \<not> QChar_isSpace (hd rest)"
  shows "QString_split (p @ w @ rest) = p # QString_split rest"
proof -
  obtain x xs where wx: "w = x # xs" using w(1) by (cases w) auto
  have x: "QChar_isSpace x" using w(2) wx by simp
  have d: "dropWhile (\<lambda>c. \<not> QChar_isSpace c) (p @ w @ rest) = x # xs @ rest"
    using p x wx by (simp add: dropWhile_append3)
  have t: "takeWhile (\<lambda>c. \<not> QChar_isSpace c) (p @ w @ rest) = p"
    using p x wx by (simp add: takeWhile_tail)
  have "dropWhile QChar_isSpace rest = rest"
    using r by (cases rest) auto
  then have e: "dropWhile QChar_isSpace (xs @ rest) = rest"
    using w(2) wx by (simp add: dropWhile_append2)
  show ?thesis
    by (simp add: QString_split_piece [OF d] t e)
qed

lemma QString_indexOf_range: "- 1 \<le> QString_indexOf ch s"
  by (induction s) (auto simp: Let_def)

lemma QString_indexOf_absent: "(QString_indexOf ch s = -1) = (ch \<notin> set s)"
proof (induction s)
  case Nil
  show ?case by simp
next
  case (Cons c s)
  with QString_indexOf_range [of ch s] show ?case by (auto simp: Let_def)
qed

lemma QString_indexOf_drop:
  "ch \<in> set s \<Longrightarrow>
   drop (nat (QString_indexOf ch s + 1)) s = tl (dropWhile (\<lambda>c. c \<noteq> ch) s)"
proof (induction s)
  case Nil
  then show ?case by simp
next
  case (Cons c s)
  show ?case
  proof (cases "c = ch")
    case True
    then show ?thesis by simp
  next
    case False
    with Cons.prems have m: "ch \<in> set s" by simp
    then have n: "QString_indexOf ch s \<noteq> -1" by (simp add: QString_indexOf_absent)
    from QString_indexOf_range [of ch s] n have "0 \<le> QString_indexOf ch s" by simp
    then have "nat (QString_indexOf ch s + 1 + 1) = Suc (nat (QString_indexOf ch s + 1))"
      by simp
    with False n Cons.IH [OF m] show ?thesis
      by (simp add: Let_def)
  qed
qed

lemma TokenizeQuery_token_eq:
  "TokenizeQuery_token t =
     (let u = filter (\<lambda>c. c \<notin> {CHR ''('', CHR '')'', CHR 0x22}) t
      in if CHR '':'' \<in> set u then tl (dropWhile (\<lambda>c. c \<noteq> CHR '':'') u) else u)"
proof -
  have f: "QString_remove_char (CHR 0x22) (QString_remove_char (CHR '')'') (QString_remove_char (CHR ''('') t)) =
        filter (\<lambda>c. c \<notin> {CHR ''('', CHR '')'', CHR 0x22}) t"
    by (simp add: QString_remove_char_def conj_commute conj_left_commute)
  show ?thesis
    unfolding TokenizeQuery_token_def Let_def f QString_remove_front_def
    by (simp add: QString_indexOf_absent QString_indexOf_drop)
qed

lemma TokenizeQuery_loop_map: "TokenizeQuery_loop ts = map TokenizeQuery_token ts"
  by (induction ts) simp_all

lemma set_tl_subset: "set (tl xs) \<subseteq> set xs"
  by (cases xs) auto

lemma TokenizeQuery_token_chars:
  assumes "\<forall>c\<in>set p. \<not> QChar_isSpace c" "c \<in> set (TokenizeQuery_token p)"
  shows "\<not> QChar_isSpace c \<and> c \<notin> {CHR ''('', CHR '')'', CHR 0x22}"
proof -
  let ?u = "filter (\<lambda>c. c \<notin> {CHR ''('', CHR '')'', CHR 0x22}) p"
  have "set (TokenizeQuery_token p) \<subseteq> set ?u"
  proof (cases "CHR '':'' \<in> set ?u")
    case True
    have "set (tl (dropWhile (\<lambda>c. c \<noteq> CHR '':'') ?u)) \<subseteq> set (dropWhile (\<lambda>c. c \<noteq> CHR '':'') ?u)"
      by (rule set_tl_subset)
    also have "\<dots> \<subseteq> set ?u" by (rule subsetI) (rule set_dropWhileD)
    finally show ?thesis using True by (simp only: TokenizeQuery_token_eq Let_def if_True)
  next
    case False
    then show ?thesis by (simp add: TokenizeQuery_token_eq Let_def)
  qed
  with assms show ?thesis by auto
qed

text \<open>
  Claim C6 says that the empty input yields the empty sequence. \<open>QString::split\<close>
  keeps empty parts, so the empty query yields one token, the empty string.
\<close>

theorem C6_TokenizeQuery_empty_counterexample: "TokenizeQuery [] \<noteq> []"
  by code_simp

text \<open>
  Claim C6, amended. \<open>TokenizeQuery\<close> is a function of the query alone. It splits the
  query at the runs of whitespace: a query without whitespace is one piece, and a piece
  in front of a run of whitespace is split off, the rest being split in the same way. In
  every piece (the pieces together are the query without its whitespace) it removes the
  characters \<open>(\<close>, \<open>)\<close> and \<open>"\<close>, and if a colon is left it
  drops the first colon and everything before it. No token contains whitespace or one of
  the three characters. The empty query yields one token, the empty string (and so does
  every run of whitespace at the start or the end of the query), and the query
  \<open>artist:Daft "Punk"\<close> yields the tokens \<open>Daft\<close> and \<open>Punk\<close>.
\<close>

theorem C6_TokenizeQuery:
  "TokenizeQuery q =
     map (\<lambda>p. let u = filter (\<lambda>c. c \<notin> {CHR ''('', CHR '')'', CHR 0x22}) p
              in if CHR '':'' \<in> set u then tl (dropWhile (\<lambda>c. c \<noteq> CHR '':'') u) else u)
       (QString_split q) \<and>
   concat (QString_split q) = filter (\<lambda>c. \<not> QChar_isSpace c) q \<and>
   ((\<forall>c\<in>set q. \<not> QChar_isSpace c) \<longrightarrow> QString_split q = [q]) \<and>
   ((\<forall>c\<in>set p. \<not> QChar_isSpace c) \<and> w \<noteq> [] \<and> (\<forall>c\<in>set w. QChar_isSpace c) \<and>
      (rest = [] \<or> \<not> QChar_isSpace (hd rest)) \<longrightarrow>
      QString_split (p @ w @ rest) = p # QString_split rest) \<and>
   (\<forall>t\<in>set (TokenizeQuery q). \<forall>c\<in>set t.
      \<not> QChar_isSpace c \<and> c \<notin> {CHR ''('', CHR '')'', CHR 0x22}) \<and>
   TokenizeQuery [] = [[]] \<and>
   TokenizeQuery (''artist:Daft '' @ [CHR 0x22] @ ''Punk'' @ [CHR 0x22]) = [''Daft'', ''Punk'']"
proof -
  have a: "TokenizeQuery q =
     map (\<lambda>p. let u = filter (\<lambda>c. c \<notin> {CHR ''('', CHR '')'', CHR 0x22}) p
              in if CHR '':'' \<in> set u then tl (dropWhile (\<lambda>c. c \<noteq> CHR '':'') u) else u)
       (QString_split q)"
    unfolding TokenizeQuery_def TokenizeQuery_loop_map
    by (rule map_cong [OF refl]) (rule TokenizeQuery_token_eq)
  have b: "(\<forall>c\<in>set q. \<not> QChar_isSpace c) \<longrightarrow> QString_split q = [q]"
    using QString_split_no_separator by blast
  have c: "(\<forall>c\<in>set p. \<not> QChar_isSpace c) \<and> w \<noteq> [] \<and> (\<forall>c\<in>set w. QChar_isSpace c) \<and>
      (rest = [] \<or> \<not> QChar_isSpace (hd rest)) \<longrightarrow>
      QString_split (p @ w @ rest) = p # QString_split rest"
    using QString_split_at_run [of p w rest] by blast
  have d: "\<forall>t\<in>set (TokenizeQuery q). \<forall>c\<in>set t.
      \<not> QChar_isSpace c \<and> c \<notin> {CHR ''('', CHR '')'', CHR 0x22}"
  proof (intro ballI)
    fix t c
    assume t: "t \<in> set (TokenizeQuery q)" and c: "c \<in> set t"
    from t obtain p where p: "p \<in> set (QString_split q)" and tp: "t = TokenizeQuery_token p"
      by (auto simp: TokenizeQuery_def TokenizeQuery_loop_map)
    have "\<forall>c\<in>set p. \<not> QChar_isSpace c"
      using QString_split_no_space [OF p] by blast
    then show "\<not> QChar_isSpace c \<and> c \<notin> {CHR ''('', CHR '')'', CHR 0x22}"
      using c tp by (intro TokenizeQuery_token_chars) auto
  qed
  have e: "TokenizeQuery [] = [[]]"
    by code_simp
  have f: "TokenizeQuery (''artist:Daft '' @ [CHR 0x22] @ ''Punk'' @ [CHR 0x22]) = [''Daft'', ''Punk'']"
    by code_simp
  have g: "concat (QString_split q) = filter (\<lambda>c. \<not> QChar_isSpace c) q"
    by (rule QString_split_concat)
  from a b c d e f g show ?thesis
    by blast
qed

theorem C6_TokenizeQuery_witness:
  "QString_split ''x  (y)'' = ''x'' # QString_split ''(y)'' \<and>
   QString_split ''a:b'' = [''a:b''] \<and>
   TokenizeQuery ''a:b'' = [''b'']"
proof -
  note t = C6_TokenizeQuery [of "''a:b''" "''x''" "''  ''" "''(y)''"]
  have q: "\<forall>c\<in>set ''a:b''. \<not> QChar_isSpace c"
    by (simp add: QChar_isSpace_def)
  have p: "(\<forall>c\<in>set ''x''. \<not> QChar_isSpace c) \<and> ''  '' \<noteq> [] \<and>
      (\<forall>c\<in>set ''  ''. QChar_isSpace c) \<and> (''(y)'' = [] \<or> \<not> QChar_isSpace (hd ''(y)''))"
    by (simp add: QChar_isSpace_def)
  from t p have 1: "QString_split (''x'' @ ''  '' @ ''(y)'') = ''x'' # QString_split ''(y)''"
    by blast
  from t q have 2: "QString_split ''a:b'' = [''a:b'']"
    by blast
  from t have "TokenizeQuery ''a:b'' =
     map (\<lambda>p. let u = filter (\<lambda>c. c \<notin> {CHR ''('', CHR '')'', CHR 0x22}) p
              in if CHR '':'' \<in> set u then tl (dropWhile (\<lambda>c. c \<noteq> CHR '':'') u) else u)
       (QString_split ''a:b'')"
    by blast
  then have 3: "TokenizeQuery ''a:b'' = [''b'']"
    by (simp add: 2)
  from 1 2 3 show ?thesis by simp
qed

section \<open>Properties of \<open>QMap\<close> and of the loop of \<open>CancelSearch\<close>\<close>

lemma QMap_value_insert:
  "QMap_value (QMap_insert k v m) k' = (if k' = k then Some v else QMap_value m k')"
  by (induction m) auto

lemma QMap_value_erase_other:
  "k' \<noteq> k \<Longrightarrow> QMap_value (QMap_erase k m) k' = QMap_value m k'"
  by (induction m) auto

lemma QMap_erase_absent:
  "QMap_value m k = None \<Longrightarrow> QMap_erase k m = m"
  by (induction m) (auto split: if_splits)

lemma QMap_value_in_set: "QMap_value m k = Some v \<Longrightarrow> (k, v) \<in> set m"
  by (induction m) (auto split: if_splits)

lemma set_QMap_insert: "set (QMap_insert k v m) \<subseteq> insert (k, v) (set m)"
  by (induction m) (auto split: if_splits)

lemma set_QMap_erase: "set (QMap_erase k m) \<subseteq> set m"
  by (induction m) (auto split: if_splits)

lemma distinct_QMap_insert:
  "distinct (map f m) \<Longrightarrow> f (k, v) \<notin> f ` set m \<Longrightarrow> distinct (map f (QMap_insert k v m))"
proof (induction m)
  case Nil
  then show ?case by simp
next
  case (Cons a m)
  obtain k' v' where a: "a = (k', v')" by (cases a)
  have "f (k', v') \<notin> f ` set (QMap_insert k v m)"
    using Cons.prems set_QMap_insert [of k v m] a by auto
  with Cons a show ?case by auto
qed

lemma distinct_QMap_erase:
  "distinct (map f m) \<Longrightarrow> distinct (map f (QMap_erase k m))"
proof (induction m)
  case Nil
  then show ?case by simp
next
  case (Cons a m)
  obtain k' v' where a: "a = (k', v')" by (cases a)
  have "f (k', v') \<notin> f ` set (QMap_erase k m)"
    using Cons.prems set_QMap_erase [of k m] a by auto
  with Cons a show ?case by auto
qed

lemma QMap_erase_removes:
  "QMap_value m k = Some v \<Longrightarrow> distinct (map f m) \<Longrightarrow> f (k, v) \<notin> f ` set (QMap_erase k m)"
proof (induction m)
  case Nil
  then show ?case by simp
next
  case (Cons a m)
  obtain k' v' where a: "a = (k', v')" by (cases a)
  show ?case
  proof (cases "k = k'")
    case True
    with Cons.prems a show ?thesis by auto
  next
    case False
    with Cons.prems a have m: "(k, v) \<in> set m" by (auto dest: QMap_value_in_set)
    have "f (k', v') \<notin> f ` set m" using Cons.prems(2) a by simp
    with m have "f (k, v) \<noteq> f (k', v')" by (metis imageI)
    with Cons False a show ?thesis by auto
  qed
qed

lemma set_CancelSearch_loop: "set (snd (CancelSearch_loop m i)) \<subseteq> set m"
  by (induction m i rule: CancelSearch_loop.induct) (auto split: prod.splits)

lemma distinct_CancelSearch_loop:
  "distinct (map f m) \<Longrightarrow> distinct (map f (snd (CancelSearch_loop m i)))"
proof (induction m i rule: CancelSearch_loop.induct)
  case (1 i)
  then show ?case by simp
next
  case (2 k v m i)
  have "f (k, v) \<notin> f ` set (snd (CancelSearch_loop m i))"
    using "2.prems" set_CancelSearch_loop [of m i] by auto
  with 2 show ?case by (auto split: prod.splits)
qed

lemma CancelSearch_loop_removes:
  "distinct (map (\<lambda>p. d_id (snd p)) m) \<Longrightarrow>
   i \<notin> (\<lambda>p. d_id (snd p)) ` set (snd (CancelSearch_loop m i))"
proof (induction m i rule: CancelSearch_loop.induct)
  case (1 i)
  then show ?case by simp
next
  case (2 k v m i)
  show ?case
  proof (cases "d_id v = i")
    case True
    with "2.prems" show ?thesis by auto
  next
    case False
    from "2.prems" have "distinct (map (\<lambda>p. d_id (snd p)) m)" by simp
    with "2.IH" [OF False] have "i \<notin> (\<lambda>p. d_id (snd p)) ` set (snd (CancelSearch_loop m i))" .
    with False show ?thesis by (auto split: prod.splits)
  qed
qed

lemma CancelSearch_loop_absent:
  "i \<notin> (\<lambda>p. d_id (snd p)) ` set m \<Longrightarrow> CancelSearch_loop m i = ([], m)"
  by (induction m i rule: CancelSearch_loop.induct) auto

section \<open>The two tables of the searches along a run\<close>

lemma HandleLoadedArt_search_fields:
  "delayed_searches (snd (HandleLoadedArt s i img)) = delayed_searches s \<and>
   pending_searches (snd (HandleLoadedArt s i img)) = pending_searches s \<and>
   searches_next_id (snd (HandleLoadedArt s i img)) = searches_next_id s"
  by (simp add: HandleLoadedArt_def Let_def)

lemma AlbumArtLoaded_search_fields:
  "delayed_searches (snd (AlbumArtLoaded s l img)) = delayed_searches s \<and>
   pending_searches (snd (AlbumArtLoaded s l img)) = pending_searches s \<and>
   searches_next_id (snd (AlbumArtLoaded s l img)) = searches_next_id s"
  by (simp add: AlbumArtLoaded_def HandleLoadedArt_search_fields split: option.splits)

lemma LoadArtAsync_search_fields:
  "delayed_searches (snd (snd (LoadArtAsync l s r))) = delayed_searches s \<and>
   pending_searches (snd (snd (LoadArtAsync l s r))) = pending_searches s \<and>
   searches_next_id (snd (snd (LoadArtAsync l s r))) = searches_next_id s"
  by (simp add: LoadArtAsync_def Let_def)

lemma SearchAsync_fields:
  "delayed_searches (snd (snd (SearchAsync t s q b))) =
     QMap_insert t \<lparr>d_id = searches_next_id s, d_query = q, d_searchby = b\<rparr> (delayed_searches s) \<and>
   pending_searches (snd (snd (SearchAsync t s q b))) = pending_searches s \<and>
   searches_next_id (snd (snd (SearchAsync t s q b))) = searches_next_id s + 1"
  by (simp add: SearchAsync_def DoSearchAsync_def Let_def)

lemma CancelSearch_fields:
  "delayed_searches (snd (CancelSearch s i)) = snd (CancelSearch_loop (delayed_searches s) i) \<and>
   pending_searches (snd (CancelSearch s i)) = pending_searches s \<and>
   searches_next_id (snd (CancelSearch s i)) = searches_next_id s"
  by (simp add: CancelSearch_def split: prod.splits)

lemma timerEvent_fields_none:
  "QMap_value (delayed_searches s) t = None \<Longrightarrow> timerEvent sid s t = ([], s)"
  by (simp add: timerEvent_def)

lemma timerEvent_fields_some:
  "QMap_value (delayed_searches s) t = Some d \<Longrightarrow>
   fst (timerEvent sid s t) = [service_Search (d_query d) (d_searchby d)] \<and>
   delayed_searches (snd (timerEvent sid s t)) = QMap_erase t (delayed_searches s) \<and>
   pending_searches (snd (timerEvent sid s t)) =
     QMap_insert sid \<lparr>orig_id = d_id d, tokens = TokenizeQuery (d_query d)\<rparr> (pending_searches s) \<and>
   searches_next_id (snd (timerEvent sid s t)) = searches_next_id s"
  by (simp add: timerEvent_def SearchAsync_id_def)

lemma SearchDone_fields:
  "delayed_searches (snd (SearchDone dflt s sid sl)) = delayed_searches s \<and>
   pending_searches (snd (SearchDone dflt s sid sl)) = QMap_erase sid (pending_searches s) \<and>
   searches_next_id (snd (SearchDone dflt s sid sl)) = searches_next_id s"
  by (simp add: SearchDone_def Let_def)

lemma step_keeps_cancelled:
  assumes "i \<notin> set (delayed_origins s)" "i \<notin> set (pending_origins s)" "i < searches_next_id s"
  shows "i \<notin> set (delayed_origins (snd (step dflt s e))) \<and>
         i \<notin> set (pending_origins (snd (step dflt s e))) \<and>
         i < searches_next_id (snd (step dflt s e))"
proof (cases e)
  case (E_SearchAsync q b t)
  have "set (delayed_searches (snd (snd (SearchAsync t s q b)))) \<subseteq>
        insert (t, \<lparr>d_id = searches_next_id s, d_query = q, d_searchby = b\<rparr>) (set (delayed_searches s))"
    using set_QMap_insert by (simp add: SearchAsync_fields)
  then have "set (delayed_origins (snd (snd (SearchAsync t s q b)))) \<subseteq>
        insert (searches_next_id s) (set (delayed_origins s))"
    by (auto simp: delayed_origins_def)
  with assms E_SearchAsync show ?thesis
    by (auto simp: pending_origins_def SearchAsync_fields)
next
  case (E_CancelSearch j)
  have "set (delayed_origins (snd (CancelSearch s j))) \<subseteq> set (delayed_origins s)"
    using set_CancelSearch_loop [of "delayed_searches s" j]
    by (auto simp: delayed_origins_def CancelSearch_fields)
  with assms E_CancelSearch show ?thesis
    by (auto simp: pending_origins_def CancelSearch_fields)
next
  case (E_timerEvent t sid)
  show ?thesis
  proof (cases "QMap_value (delayed_searches s) t")
    case None
    with assms E_timerEvent show ?thesis by (simp add: timerEvent_fields_none)
  next
    case (Some d)
    note f = timerEvent_fields_some [OF Some, of sid]
    have "(t, d) \<in> set (delayed_searches s)" using Some by (rule QMap_value_in_set)
    then have di: "d_id d \<in> set (delayed_origins s)" by (force simp: delayed_origins_def)
    have 1: "set (delayed_origins (snd (timerEvent sid s t))) \<subseteq> set (delayed_origins s)"
      using set_QMap_erase [of t "delayed_searches s"] by (auto simp: delayed_origins_def f)
    have "set (pending_searches (snd (timerEvent sid s t))) \<subseteq>
       insert (sid, \<lparr>orig_id = d_id d, tokens = TokenizeQuery (d_query d)\<rparr>) (set (pending_searches s))"
      using set_QMap_insert by (simp add: f)
    then have 2: "set (pending_origins (snd (timerEvent sid s t))) \<subseteq>
       insert (d_id d) (set (pending_origins s))"
      by (auto simp: pending_origins_def)
    from assms di 1 2 E_timerEvent show ?thesis by (auto simp: f)
  qed
next
  case (E_SearchDone sid sl)
  have "set (pending_origins (snd (SearchDone dflt s sid sl))) \<subseteq> set (pending_origins s)"
    using set_QMap_erase [of sid "pending_searches s"]
    by (auto simp: pending_origins_def SearchDone_fields)
  with assms E_SearchDone show ?thesis
    by (auto simp: delayed_origins_def SearchDone_fields)
next
  case (E_HandleError j m)
  with assms show ?thesis by (simp add: HandleError_def)
next
  case (E_LoadArtAsync r l)
  with assms show ?thesis
    by (simp add: delayed_origins_def pending_origins_def LoadArtAsync_search_fields)
next
  case (E_AlbumArtLoaded l img)
  with assms show ?thesis
    by (simp add: delayed_origins_def pending_origins_def AlbumArtLoaded_search_fields)
qed

lemma run_keeps_cancelled:
  "i \<notin> set (delayed_origins s) \<Longrightarrow> i \<notin> set (pending_origins s) \<Longrightarrow> i < searches_next_id s \<Longrightarrow>
   i \<notin> set (delayed_origins (snd (run dflt s es))) \<and>
   i \<notin> set (pending_origins (snd (run dflt s es))) \<and>
   i < searches_next_id (snd (run dflt s es))"
proof (induction es arbitrary: s)
  case Nil
  then show ?case by simp
next
  case (Cons e es)
  from step_keeps_cancelled [OF Cons.prems, of dflt e] Cons.IH [of "snd (step dflt s e)"]
  show ?case by (simp add: split_beta Let_def)
qed

lemma search_inv_iff:
  "search_inv s =
     (distinct (delayed_origins s) \<and>
      (\<forall>i\<in>set (delayed_origins s). i < searches_next_id s \<and> i \<notin> set (pending_origins s)) \<and>
      (\<forall>i\<in>set (pending_origins s). i < searches_next_id s))"
  by (auto simp: search_inv_def list_all_iff)

lemma search_inv_init: "search_inv TidalSearch_init"
  by (simp add: search_inv_def TidalSearch_init_def delayed_origins_def pending_origins_def)

lemma step_search_inv:
  assumes inv: "search_inv s"
  shows "search_inv (snd (step dflt s e))"
proof (cases e)
  case (E_SearchAsync q b t)
  let ?n = "searches_next_id s"
  let ?s = "snd (snd (SearchAsync t s q b))"
  let ?f = "\<lambda>p. d_id (snd p)"
  have new: "?f (t, \<lparr>d_id = ?n, d_query = q, d_searchby = b\<rparr>) \<notin> ?f ` set (delayed_searches s)"
    using inv by (auto simp: search_inv_iff delayed_origins_def)
  have d: "distinct (delayed_origins ?s)"
    unfolding delayed_origins_def SearchAsync_fields [THEN conjunct1]
    using inv new by (intro distinct_QMap_insert) (simp_all add: search_inv_iff delayed_origins_def)
  have "set (delayed_searches ?s) \<subseteq>
        insert (t, \<lparr>d_id = ?n, d_query = q, d_searchby = b\<rparr>) (set (delayed_searches s))"
    using set_QMap_insert by (simp add: SearchAsync_fields)
  then have sub: "set (delayed_origins ?s) \<subseteq> insert ?n (set (delayed_origins s))"
    by (auto simp: delayed_origins_def)
  have p: "pending_origins ?s = pending_origins s"
    by (simp add: pending_origins_def SearchAsync_fields)
  have n: "searches_next_id ?s = ?n + 1"
    by (simp add: SearchAsync_fields)
  have "search_inv ?s"
    unfolding search_inv_iff p n
    using d sub inv by (fastforce simp: search_inv_iff)
  with E_SearchAsync show ?thesis by simp
next
  case (E_CancelSearch j)
  let ?s = "snd (CancelSearch s j)"
  have d: "distinct (delayed_origins ?s)"
    unfolding delayed_origins_def CancelSearch_fields [THEN conjunct1]
    using inv by (intro distinct_CancelSearch_loop) (simp add: search_inv_iff delayed_origins_def)
  have sub: "set (delayed_origins ?s) \<subseteq> set (delayed_origins s)"
    using set_CancelSearch_loop [of "delayed_searches s" j]
    by (auto simp: delayed_origins_def CancelSearch_fields)
  have p: "pending_origins ?s = pending_origins s" "searches_next_id ?s = searches_next_id s"
    by (simp_all add: pending_origins_def CancelSearch_fields)
  have "search_inv ?s"
    unfolding search_inv_iff p
    using d sub inv by (auto simp: search_inv_iff)
  with E_CancelSearch show ?thesis by simp
next
  case (E_timerEvent t sid)
  show ?thesis
  proof (cases "QMap_value (delayed_searches s) t")
    case None
    with inv E_timerEvent show ?thesis by (simp add: timerEvent_fields_none)
  next
    case (Some d)
    let ?s = "snd (timerEvent sid s t)"
    let ?f = "\<lambda>p. d_id (snd p)"
    note f = timerEvent_fields_some [OF Some, of sid]
    have "(t, d) \<in> set (delayed_searches s)" using Some by (rule QMap_value_in_set)
    then have di: "d_id d \<in> set (delayed_origins s)" by (force simp: delayed_origins_def)
    have dist: "distinct (map ?f (delayed_searches s))"
      using inv by (simp add: search_inv_iff delayed_origins_def)
    have d1: "distinct (delayed_origins ?s)"
      unfolding delayed_origins_def f [THEN conjunct2, THEN conjunct1]
      using dist by (rule distinct_QMap_erase)
    have 1: "set (delayed_origins ?s) \<subseteq> set (delayed_origins s)"
      using set_QMap_erase [of t "delayed_searches s"] by (auto simp: delayed_origins_def f)
    have gone: "d_id d \<notin> set (delayed_origins ?s)"
      using QMap_erase_removes [OF Some dist] by (simp add: delayed_origins_def f)
    have "set (pending_searches ?s) \<subseteq>
       insert (sid, \<lparr>orig_id = d_id d, tokens = TokenizeQuery (d_query d)\<rparr>) (set (pending_searches s))"
      using set_QMap_insert by (simp add: f)
    then have 2: "set (pending_origins ?s) \<subseteq> insert (d_id d) (set (pending_origins s))"
      by (auto simp: pending_origins_def)
    have n: "searches_next_id ?s = searches_next_id s" by (simp add: f)
    have "search_inv ?s"
      unfolding search_inv_iff n
      using d1 1 2 gone di inv by (fastforce simp: search_inv_iff)
    with E_timerEvent show ?thesis by simp
  qed
next
  case (E_SearchDone sid sl)
  let ?s = "snd (SearchDone dflt s sid sl)"
  have sub: "set (pending_origins ?s) \<subseteq> set (pending_origins s)"
    using set_QMap_erase [of sid "pending_searches s"]
    by (auto simp: pending_origins_def SearchDone_fields)
  have p: "delayed_origins ?s = delayed_origins s" "searches_next_id ?s = searches_next_id s"
    by (simp_all add: delayed_origins_def SearchDone_fields)
  have "search_inv ?s"
    unfolding search_inv_iff p
    using sub inv by (fastforce simp: search_inv_iff)
  with E_SearchDone show ?thesis by simp
next
  case (E_HandleError j m)
  with inv show ?thesis by (simp add: HandleError_def)
next
  case (E_LoadArtAsync r l)
  with inv show ?thesis
    by (simp add: search_inv_def delayed_origins_def pending_origins_def LoadArtAsync_search_fields)
next
  case (E_AlbumArtLoaded l img)
  with inv show ?thesis
    by (simp add: search_inv_def delayed_origins_def pending_origins_def AlbumArtLoaded_search_fields)
qed

lemma run_search_inv: "search_inv s \<Longrightarrow> search_inv (snd (run dflt s es))"
proof (induction es arbitrary: s)
  case Nil
  then show ?case by simp
next
  case (Cons e es)
  from Cons.IH [OF step_search_inv [OF Cons.prems, of dflt e]]
  show ?case by (simp add: split_beta Let_def)
qed

section \<open>The debounce timers\<close>

lemma CancelSearch_loop_present:
  "i \<in> (\<lambda>p. d_id (snd p)) ` set m \<Longrightarrow>
   \<exists>t d. (t, d) \<in> set m \<and> d_id d = i \<and> fst (CancelSearch_loop m i) = [killTimer t]"
proof (induction m i rule: CancelSearch_loop.induct)
  case (1 i)
  then show ?case by simp
next
  case (2 k v m i)
  show ?case
  proof (cases "d_id v = i")
    case True
    then show ?thesis by auto
  next
    case False
    with "2.prems" have "i \<in> (\<lambda>p. d_id (snd p)) ` set m" by auto
    from "2.IH" [OF False this] obtain t d where
      "(t, d) \<in> set m" "d_id d = i" "fst (CancelSearch_loop m i) = [killTimer t]" by blast
    with False show ?thesis by (auto split: prod.splits)
  qed
qed




text \<open>
  Claim C4. Take any run of the object and an origin whose timer has not fired. Then
  \<open>CancelSearch\<close> stops the timer of that origin, and in whatever way the run goes on,
  the origin has no timer and no call of the backend: no timer that fires later finds an
  entry of that origin to dispatch. For an id without a pending timer \<open>CancelSearch\<close>
  does nothing and leaves the object as it is.
\<close>

theorem C4_CancelSearch:
  "(i \<in> set (delayed_origins (snd (run dflt TidalSearch_init es1))) \<longrightarrow>
      (\<exists>t d. (t, d) \<in> set (delayed_searches (snd (run dflt TidalSearch_init es1))) \<and> d_id d = i \<and>
             fst (CancelSearch (snd (run dflt TidalSearch_init es1)) i) = [killTimer t]) \<and>
      i \<notin> set (delayed_origins
        (snd (run dflt (snd (CancelSearch (snd (run dflt TidalSearch_init es1)) i)) es2))) \<and>
      i \<notin> set (pending_origins
        (snd (run dflt (snd (CancelSearch (snd (run dflt TidalSearch_init es1)) i)) es2))) \<and>
      (\<forall>t d. QMap_value (delayed_searches
          (snd (run dflt (snd (CancelSearch (snd (run dflt TidalSearch_init es1)) i)) es2))) t = Some d
         \<longrightarrow> d_id d \<noteq> i)) \<and>
   (i \<notin> set (delayed_origins s) \<longrightarrow> CancelSearch s i = ([], s))"
proof -
  let ?s = "snd (run dflt TidalSearch_init es1)"
  let ?c = "snd (CancelSearch ?s i)"
  let ?e = "snd (run dflt ?c es2)"
  have noop: "i \<notin> set (delayed_origins s) \<longrightarrow> CancelSearch s i = ([], s)"
    by (auto simp: delayed_origins_def CancelSearch_def CancelSearch_loop_absent)
  have main: "(\<exists>t d. (t, d) \<in> set (delayed_searches ?s) \<and> d_id d = i \<and>
             fst (CancelSearch ?s i) = [killTimer t]) \<and>
      i \<notin> set (delayed_origins ?e) \<and> i \<notin> set (pending_origins ?e) \<and>
      (\<forall>t d. QMap_value (delayed_searches ?e) t = Some d \<longrightarrow> d_id d \<noteq> i)"
    if i: "i \<in> set (delayed_origins ?s)"
  proof -
    have inv: "search_inv ?s"
      by (rule run_search_inv [OF search_inv_init])
    from i have "i \<in> (\<lambda>p. d_id (snd p)) ` set (delayed_searches ?s)"
      by (simp add: delayed_origins_def)
    from CancelSearch_loop_present [OF this]
    have k: "\<exists>t d. (t, d) \<in> set (delayed_searches ?s) \<and> d_id d = i \<and>
             fst (CancelSearch ?s i) = [killTimer t]"
      by (auto simp: CancelSearch_def split: prod.splits)
    have 1: "i \<notin> set (delayed_origins ?c)"
      using inv CancelSearch_loop_removes [of "delayed_searches ?s" i]
      by (simp add: search_inv_iff delayed_origins_def CancelSearch_fields)
    have 2: "i \<notin> set (pending_origins ?c)"
      using inv i by (simp add: search_inv_iff pending_origins_def CancelSearch_fields)
    have 3: "i < searches_next_id ?c"
      using inv i by (simp add: search_inv_iff CancelSearch_fields)
    note r = run_keeps_cancelled [OF 1 2 3, of dflt es2]
    have "d_id d \<noteq> i" if "QMap_value (delayed_searches ?e) t = Some d" for t d
    proof -
      from that have "(t, d) \<in> set (delayed_searches ?e)" by (rule QMap_value_in_set)
      then have "d_id d \<in> set (delayed_origins ?e)" by (force simp: delayed_origins_def)
      with r show ?thesis by blast
    qed
    with k r show ?thesis by blast
  qed
  from main noop show ?thesis by blast
qed

theorem C4_CancelSearch_witness:
  "1 \<in> set (delayed_origins
     (snd (run \<lparr>orig_id = - 1, tokens = []\<rparr> TidalSearch_init [E_SearchAsync ''q'' 0 5]))) \<and>
   fst (CancelSearch
     (snd (run \<lparr>orig_id = - 1, tokens = []\<rparr> TidalSearch_init [E_SearchAsync ''q'' 0 5])) 1) =
     [killTimer 5] \<and>
   run \<lparr>orig_id = - 1, tokens = []\<rparr>
     (snd (CancelSearch
        (snd (run \<lparr>orig_id = - 1, tokens = []\<rparr> TidalSearch_init [E_SearchAsync ''q'' 0 5])) 1))
     [E_timerEvent 5 9] =
     ([], TidalSearch_init\<lparr>searches_next_id := 2\<rparr>) \<and>
   1 \<notin> set (delayed_origins TidalSearch_init) \<and>
   CancelSearch TidalSearch_init 1 = ([], TidalSearch_init)"
  using C4_CancelSearch [of 1 "\<lparr>orig_id = - 1, tokens = []\<rparr>" "[E_SearchAsync ''q'' 0 5]"
      "[E_timerEvent 5 9]" TidalSearch_init]
  by (simp add: SearchAsync_def DoSearchAsync_def CancelSearch_def timerEvent_def
      TidalSearch_init_def Let_def delayed_origins_def)

section \<open>Replies of the backend\<close>

lemma SearchDone_SearchFinished:
  assumes "SearchFinished i \<in> set (fst (SearchDone dflt s sid sl))"
  shows "i \<notin> set (pending_origins (snd (SearchDone dflt s sid sl)))"
proof -
  let ?st = "case QMap_value (pending_searches s) sid of None \<Rightarrow> dflt | Some st \<Rightarrow> st"
  let ?s1 = "s\<lparr>pending_searches := QMap_erase sid (pending_searches s)\<rparr>"
  have "SearchFinished i \<notin> set (ResultsAvailableSlot (orig_id ?st) (SearchDone_loop sl))"
    by (simp add: ResultsAvailableSlot_def Let_def)
  with assms have "SearchFinished i \<in> set (MaybeSearchFinished ?s1 (orig_id ?st))"
    by (simp add: SearchDone_def Let_def)
  then have "i = orig_id ?st" and
    "QMap_keys_of PendingState_eq (pending_searches ?s1) \<lparr>orig_id = i, tokens = []\<rparr> = []"
    by (auto simp: MaybeSearchFinished_def split: if_splits)
  then have "i \<notin> set (pending_origins ?s1)"
    by (auto simp: QMap_keys_of_def PendingState_eq_def pending_origins_def filter_empty_conv)
  then show ?thesis
    by (simp add: SearchDone_def Let_def pending_origins_def)
qed

lemma HandleError_keeps_state: "snd (HandleError s i m) = s"
  by (simp add: HandleError_def)

lemma TokenizeQuery_q: "TokenizeQuery ''q'' = [''q'']"
  by code_simp

text \<open>
  Claim C1 at an error reply. One search is started, its timer fires and the backend is
  called under the id 9; the backend answers with an error. \<open>HandleError\<close> passes the
  error on under the backend's id and touches nothing: the call stays in
  \<open>pending_searches_\<close>, and no \<open>SearchFinished\<close> is emitted for the origin 1.
\<close>

theorem C1_error_reply_never_finishes:
  "run dflt TidalSearch_init
     [E_SearchAsync ''q'' 0 5, E_timerEvent 5 9, E_HandleError 9 ''e''] =
     ([startTimer 200, service_Search ''q'' 0, SearchError 9 ''e''],
      TidalSearch_init\<lparr>searches_next_id := 2,
        pending_searches := [(9, \<lparr>orig_id = 1, tokens = [''q'']\<rparr>)]\<rparr>)"
  by (simp add: SearchAsync_def DoSearchAsync_def timerEvent_def SearchAsync_id_def
      HandleError_def TidalSearch_init_def Let_def kDelayedSearchTimeoutMs_def TokenizeQuery_q)

text \<open>
  Claim C2 at a reply of the backend with an id that is in no table. In the object as
  constructed, \<open>SearchDone\<close> for the unknown id 7 emits \<open>ResultsAvailable\<close>,
  \<open>AddResults\<close> and \<open>SearchFinished\<close> under the origin of a default-constructed
  \<open>PendingState\<close>; the tables stay as they are.
\<close>

theorem C2_stale_search_reply_emits:
  "SearchDone dflt TidalSearch_init 7 [\<lparr>url = ''u''\<rparr>] =
     ([ResultsAvailable (orig_id dflt) [\<lparr>metadata = \<lparr>url = ''u''\<rparr>, pixmap_cache_key = []\<rparr>],
       AddResults (orig_id dflt) [\<lparr>metadata = \<lparr>url = ''u''\<rparr>, pixmap_cache_key = ''tidal:u''\<rparr>],
       SearchFinished (orig_id dflt)],
      TidalSearch_init)"
  by (simp add: SearchDone_def TidalSearch_init_def Let_def ResultsAvailableSlot_def
      kMaxResultsPerEmission_def PixmapCacheKey_def MaybeSearchFinished_def QMap_keys_of_def)

section \<open>Album art and the cache\<close>

lemma AlbumArtLoaded_known:
  "QMap_value (cover_loader_tasks s) l = Some i \<Longrightarrow>
   fst (AlbumArtLoaded s l img) = [ArtLoaded i (QPixmap_fromImage img)]"
  by (simp add: AlbumArtLoaded_def QMap_contains_def HandleLoadedArt_def Let_def)

lemma AlbumArtLoaded_tasks:
  "cover_loader_tasks (snd (AlbumArtLoaded s l img)) = QMap_erase l (cover_loader_tasks s)"
  by (cases "QMap_value (cover_loader_tasks s) l")
    (simp_all add: AlbumArtLoaded_def QMap_contains_def HandleLoadedArt_def Let_def QMap_erase_absent)

lemma AlbumArtLoaded_unknown:
  "\<not> QMap_contains (cover_loader_tasks s) l \<Longrightarrow> AlbumArtLoaded s l img = ([], s)"
  by (simp add: AlbumArtLoaded_def)

text \<open>
  Claim C7 says that requests in flight are deduplicated. Two requests for the same
  result, the second before any reply to the first, call the cover loader twice.
\<close>

theorem C7_no_deduplication_counterexample:
  "fst (run \<lparr>orig_id = - 1, tokens = []\<rparr> TidalSearch_init
     [E_LoadArtAsync \<lparr>metadata = \<lparr>url = ''u''\<rparr>, pixmap_cache_key = ''tidal:u''\<rparr> 5,
      E_LoadArtAsync \<lparr>metadata = \<lparr>url = ''u''\<rparr>, pixmap_cache_key = ''tidal:u''\<rparr> 6]) =
     [LoadImageAsync \<lparr>url = ''u''\<rparr>, LoadImageAsync \<lparr>url = ''u''\<rparr>]"
  by (simp add: LoadArtAsync_def TidalSearch_init_def Let_def)

text \<open>
  Claim C7, amended. When art is requested twice for the same result before the first
  fetch completes, each request calls the cover loader and gets its own request id, and
  when the loader answers the two calls under two different loader ids, in either order,
  each request id gets its own \<open>ArtLoaded\<close> with the image of its reply.
\<close>

theorem C7_each_request_completes:
  "l1 \<noteq> l2 \<longrightarrow>
   (let (i1, e1, s1) = LoadArtAsync l1 s r;
        (i2, e2, s2) = LoadArtAsync l2 s1 r
    in e1 = [LoadImageAsync (metadata r)] \<and> e2 = [LoadImageAsync (metadata r)] \<and>
       i1 = art_searches_next_id s \<and> i2 = art_searches_next_id s + 1 \<and>
       fst (AlbumArtLoaded s2 l1 img1) = [ArtLoaded i1 (QPixmap_fromImage img1)] \<and>
       fst (AlbumArtLoaded s2 l2 img2) = [ArtLoaded i2 (QPixmap_fromImage img2)] \<and>
       fst (AlbumArtLoaded (snd (AlbumArtLoaded s2 l1 img1)) l2 img2) =
         [ArtLoaded i2 (QPixmap_fromImage img2)] \<and>
       fst (AlbumArtLoaded (snd (AlbumArtLoaded s2 l2 img2)) l1 img1) =
         [ArtLoaded i1 (QPixmap_fromImage img1)])"
proof
  assume n: "l1 \<noteq> l2"
  obtain i1 e1 s1 where 1: "LoadArtAsync l1 s r = (i1, e1, s1)" by (cases "LoadArtAsync l1 s r")
  obtain i2 e2 s2 where 2: "LoadArtAsync l2 s1 r = (i2, e2, s2)" by (cases "LoadArtAsync l2 s1 r")
  from 1 have a: "i1 = art_searches_next_id s" "e1 = [LoadImageAsync (metadata r)]"
    "art_searches_next_id s1 = art_searches_next_id s + 1"
    "cover_loader_tasks s1 = QMap_insert l1 i1 (cover_loader_tasks s)"
    by (auto simp: LoadArtAsync_def Let_def)
  from 2 have b: "i2 = art_searches_next_id s1" "e2 = [LoadImageAsync (metadata r)]"
    "cover_loader_tasks s2 = QMap_insert l2 i2 (cover_loader_tasks s1)"
    by (auto simp: LoadArtAsync_def Let_def)
  have t1: "QMap_value (cover_loader_tasks s2) l1 = Some i1"
    using n by (simp add: a b QMap_value_insert)
  have t2: "QMap_value (cover_loader_tasks s2) l2 = Some i2"
    by (simp add: b QMap_value_insert)
  have u1: "QMap_value (cover_loader_tasks (snd (AlbumArtLoaded s2 l2 img2))) l1 = Some i1"
    using n t1 by (simp add: AlbumArtLoaded_tasks QMap_value_erase_other)
  have u2: "QMap_value (cover_loader_tasks (snd (AlbumArtLoaded s2 l1 img1))) l2 = Some i2"
    using n t2 by (simp add: AlbumArtLoaded_tasks QMap_value_erase_other)
  show "let (i1, e1, s1) = LoadArtAsync l1 s r;
        (i2, e2, s2) = LoadArtAsync l2 s1 r
    in e1 = [LoadImageAsync (metadata r)] \<and> e2 = [LoadImageAsync (metadata r)] \<and>
       i1 = art_searches_next_id s \<and> i2 = art_searches_next_id s + 1 \<and>
       fst (AlbumArtLoaded s2 l1 img1) = [ArtLoaded i1 (QPixmap_fromImage img1)] \<and>
       fst (AlbumArtLoaded s2 l2 img2) = [ArtLoaded i2 (QPixmap_fromImage img2)] \<and>
       fst (AlbumArtLoaded (snd (AlbumArtLoaded s2 l1 img1)) l2 img2) =
         [ArtLoaded i2 (QPixmap_fromImage img2)] \<and>
       fst (AlbumArtLoaded (snd (AlbumArtLoaded s2 l2 img2)) l1 img1) =
         [ArtLoaded i1 (QPixmap_fromImage img1)]"
    unfolding 1 2 Let_def prod.case
    using a(1,2,3) b(1,2) AlbumArtLoaded_known [OF t1] AlbumArtLoaded_known [OF t2]
      AlbumArtLoaded_known [OF u1] AlbumArtLoaded_known [OF u2]
    by simp
qed

theorem C7_each_request_completes_witness:
  "(5::nat) \<noteq> 6 \<and>
   fst (run \<lparr>orig_id = - 1, tokens = []\<rparr> TidalSearch_init
     [E_LoadArtAsync \<lparr>metadata = \<lparr>url = ''u''\<rparr>, pixmap_cache_key = ''tidal:u''\<rparr> 5,
      E_LoadArtAsync \<lparr>metadata = \<lparr>url = ''u''\<rparr>, pixmap_cache_key = ''tidal:u''\<rparr> 6,
      E_AlbumArtLoaded 6 (QImage_data 32 32 0),
      E_AlbumArtLoaded 5 (QImage_data 32 32 1)]) =
     [LoadImageAsync \<lparr>url = ''u''\<rparr>, LoadImageAsync \<lparr>url = ''u''\<rparr>,
      ArtLoaded 2 (QPixmap_fromImage (QImage_data 32 32 0)),
      ArtLoaded 1 (QPixmap_fromImage (QImage_data 32 32 1))]"
  using C7_each_request_completes [of 5 6 TidalSearch_init
      "\<lparr>metadata = \<lparr>url = ''u''\<rparr>, pixmap_cache_key = ''tidal:u''\<rparr>"
      "QImage_data 32 32 1" "QImage_data 32 32 0"]
  by (simp add: LoadArtAsync_def TidalSearch_init_def Let_def AlbumArtLoaded_def
      QMap_contains_def HandleLoadedArt_def)

text \<open>
  Claim C8. The cache key of a result is the prefix \<open>tidal:\<close> followed by the URL of
  its metadata, so two results with the same URL have the same key. A pixmap inserted
  into the cache under a key is found under that key; and after \<open>HandleLoadedArt\<close> for
  a request that is pending with the key of a result, \<open>FindCachedPixmap\<close> finds for
  that result the pixmap of the loaded image.
\<close>

theorem C8_cache_key_and_cache:
  "PixmapCacheKey r = ''tidal:'' @ url (metadata r) \<and>
   (url (metadata r1) = url (metadata r2) \<longrightarrow> PixmapCacheKey r1 = PixmapCacheKey r2) \<and>
   PixmapCache_find (PixmapCache_insert c key pixmap) key = Some pixmap \<and>
   (QMap_value (pending_art_searches s) ident = Some (pixmap_cache_key r) \<longrightarrow>
      FindCachedPixmap (snd (HandleLoadedArt s ident img)) r = Some (QPixmap_fromImage img))"
  by (simp add: PixmapCacheKey_def PixmapCache_find_def PixmapCache_insert_def
      FindCachedPixmap_def HandleLoadedArt_def Let_def)

theorem C8_cache_key_and_cache_witness:
  "url (metadata \<lparr>metadata = \<lparr>url = ''u''\<rparr>, pixmap_cache_key = ''a''\<rparr>) =
     url (metadata \<lparr>metadata = \<lparr>url = ''u''\<rparr>, pixmap_cache_key = ''b''\<rparr>) \<and>
   PixmapCacheKey \<lparr>metadata = \<lparr>url = ''u''\<rparr>, pixmap_cache_key = ''a''\<rparr> =
     PixmapCacheKey \<lparr>metadata = \<lparr>url = ''u''\<rparr>, pixmap_cache_key = ''b''\<rparr> \<and>
   QMap_value (pending_art_searches (TidalSearch_init\<lparr>pending_art_searches := [(1, ''tidal:u'')]\<rparr>)) 1 =
     Some (pixmap_cache_key \<lparr>metadata = \<lparr>url = ''u''\<rparr>, pixmap_cache_key = ''tidal:u''\<rparr>) \<and>
   FindCachedPixmap
     (snd (HandleLoadedArt (TidalSearch_init\<lparr>pending_art_searches := [(1, ''tidal:u'')]\<rparr>) 1
        (QImage_data 32 32 7)))
     \<lparr>metadata = \<lparr>url = ''u''\<rparr>, pixmap_cache_key = ''tidal:u''\<rparr> =
     Some (QPixmap_fromImage (QImage_data 32 32 7))"
  using C8_cache_key_and_cache [of "\<lparr>metadata = \<lparr>url = ''u''\<rparr>, pixmap_cache_key = ''tidal:u''\<rparr>"
      "\<lparr>metadata = \<lparr>url = ''u''\<rparr>, pixmap_cache_key = ''a''\<rparr>"
      "\<lparr>metadata = \<lparr>url = ''u''\<rparr>, pixmap_cache_key = ''b''\<rparr>"
      Map.empty "''k''" "QPixmap_fromImage QImage_null"
      "TidalSearch_init\<lparr>pending_art_searches := [(1, ''tidal:u'')]\<rparr>" 1 "QImage_data 32 32 7"]
  by (simp add: TidalSearch_init_def)

section \<open>Scaling and padding\<close>





end
